theory Spec2Isabelle
  imports Main "HOL-Library.Sublist"
begin

section \<open>The world the housekeeper runs in\<close>

text \<open>
  \<^verbatim>\<open>py_utils/housekeeper.py\<close> talks to four collaborators: the filesystem
  (\<^verbatim>\<open>os.path.exists\<close>, \<^verbatim>\<open>Path.rglob\<close>, \<^verbatim>\<open>is_file\<close>, \<^verbatim>\<open>stat\<close>,
  \<^verbatim>\<open>os.remove\<close>), the clock (\<^verbatim>\<open>datetime.now\<close>), standard input (\<^verbatim>\<open>input\<close>)
  and standard output (\<^verbatim>\<open>print\<close>). They are one explicit state, the \<open>world\<close>,
  which every operation takes and returns.

  \<^item> A path is the list of its components; \<open>p\<close> lies under \<open>d\<close> when \<open>d\<close> is a
    strict prefix of \<open>p\<close>.
  \<^item> The filesystem is an association list from paths to nodes, in the order in which
    a directory scan reports them. A node is a regular file or a directory, has a
    modification time, and says how \<^verbatim>\<open>os.remove\<close> fails on it, if it does
    (\<open>Some\<close> the text of the exception). Symbolic links are not modelled.
  \<^item> Times are integers, in microseconds (the resolution of \<^verbatim>\<open>datetime\<close>); the
    rounding of \<^verbatim>\<open>timestamp()\<close> to a float and the range limits of
    \<^verbatim>\<open>timedelta\<close> are not modelled.
  \<^item> Standard input is the list of the lines still to be read.
  \<^item> The trace records, in order, every call of \<^verbatim>\<open>print\<close>, \<^verbatim>\<open>input\<close>,
    \<^verbatim>\<open>os.path.exists\<close>, \<^verbatim>\<open>Path.rglob\<close> and \<^verbatim>\<open>os.remove\<close>.
\<close>

type_synonym path = "string list"

datatype kind = RegularFile | Directory

datatype node = Node (node_kind: kind) (node_mtime: int) (node_rm_error: "string option")

type_synonym entry = "path \<times> node"

datatype event =
    Print string
  | Input string
  | Exists path
  | Rglob path
  | Remove path

datatype error = FileNotFoundError string | EOFError

record world =
  fs :: "entry list"
  now :: int
  stdin :: "string list"
  trace :: "event list"

definition emit :: "event \<Rightarrow> world \<Rightarrow> world" where
  "emit e w = w\<lparr>trace := trace w @ [e]\<rparr>"

subsection \<open>Strings\<close>

text \<open>\<^verbatim>\<open>str(n)\<close> for an integer, \<^verbatim>\<open>str(path)\<close> and \<^verbatim>\<open>str.lower\<close>
  (on the ASCII letters; a \<open>char\<close> is a byte).\<close>

fun str_nat :: "nat \<Rightarrow> string" where
  "str_nat n =
     (if n < 10 then [''0123456789'' ! n]
      else str_nat (n div 10) @ [''0123456789'' ! (n mod 10)])"

declare str_nat.simps [simp del]

definition str_int :: "int \<Rightarrow> string" where
  "str_int i = (if i < 0 then ''-'' @ str_nat (nat (- i)) else str_nat (nat i))"

definition path_str :: "path \<Rightarrow> string" where
  "path_str p = concat (map (\<lambda>c. ''/'' @ c) p)"

definition lower_char :: "char \<Rightarrow> char" where
  "lower_char c =
     (case map_of (zip ''ABCDEFGHIJKLMNOPQRSTUVWXYZ'' ''abcdefghijklmnopqrstuvwxyz'') c of
        Some l \<Rightarrow> l
      | None \<Rightarrow> c)"

definition lower :: "string \<Rightarrow> string" where
  "lower s = map lower_char s"

subsection \<open>Console\<close>

definition print :: "string \<Rightarrow> world \<Rightarrow> world" where
  "print s w = emit (Print s) w"

text \<open>\<^verbatim>\<open>input(prompt)\<close> reads one line; at end of input it raises \<^verbatim>\<open>EOFError\<close>.\<close>

definition input :: "string \<Rightarrow> world \<Rightarrow> (error + string) \<times> world" where
  "input prompt w =
     (case stdin w of
        [] \<Rightarrow> (Inl EOFError, emit (Input prompt) w)
      | l # ls \<Rightarrow> (Inr l, emit (Input prompt) (w\<lparr>stdin := ls\<rparr>)))"

subsection \<open>Filesystem\<close>

definition os_path_exists :: "path \<Rightarrow> world \<Rightarrow> bool \<times> world" where
  "os_path_exists p w = (map_of (fs w) p \<noteq> None, emit (Exists p) w)"

text \<open>\<^verbatim>\<open>Path(d).rglob('*')\<close>: every entry below \<open>d\<close>; nothing when \<open>d\<close> is not a
  directory (pathlib's selector returns an empty iterator then).\<close>

definition rglob :: "path \<Rightarrow> world \<Rightarrow> entry list \<times> world" where
  "rglob d w =
     ((case map_of (fs w) d of
         None \<Rightarrow> []
       | Some n \<Rightarrow>
           if node_kind n = Directory then filter (\<lambda>e. strict_prefix d (fst e)) (fs w)
           else []),
      emit (Rglob d) w)"

definition is_file :: "entry \<Rightarrow> bool" where
  "is_file e = (node_kind (snd e) = RegularFile)"

definition st_mtime :: "entry \<Rightarrow> int" where
  "st_mtime e = node_mtime (snd e)"

text \<open>\<^verbatim>\<open>os.remove(p)\<close>: \<open>None\<close> when the file was removed, \<open>Some\<close> the text of the
  exception otherwise. The filesystem changes only when the removal succeeds.\<close>

definition os_remove :: "path \<Rightarrow> world \<Rightarrow> string option \<times> world" where
  "os_remove p w =
     (let w' = emit (Remove p) w
      in case map_of (fs w) p of
           None \<Rightarrow> (Some ''No such file or directory'', w')
         | Some n \<Rightarrow>
             if node_kind n = Directory then (Some ''Is a directory'', w')
             else (case node_rm_error n of
                     Some msg \<Rightarrow> (Some msg, w')
                   | None \<Rightarrow> (None, w'\<lparr>fs := filter (\<lambda>e. fst e \<noteq> p) (fs w)\<rparr>)))"

subsection \<open>Clock and slices\<close>

text \<open>\<^verbatim>\<open>timedelta(days=n)\<close> in microseconds.\<close>

definition timedelta_days :: "int \<Rightarrow> int" where
  "timedelta_days n = n * 86400000000"

text \<open>\<^verbatim>\<open>xs[i:]\<close>: a negative \<open>i\<close> counts from the end.\<close>

definition slice_from :: "'a list \<Rightarrow> int \<Rightarrow> 'a list" where
  "slice_from xs i =
     (if i < 0 then drop (nat (int (length xs) + i)) xs else drop (nat i) xs)"

section \<open>The housekeeper\<close>

text \<open>The deletion loop, the same in both operations:
  \<^verbatim>\<open>
  deleted_count = 0
  for file_path in files_to_delete:
      try:
          os.remove(file_path)
          deleted_count += 1
      except Exception as e:
          print(f"Error deleting {file_path}: {e}")
  return deleted_count
  \<close>\<close>

fun delete_files :: "path list \<Rightarrow> int \<Rightarrow> world \<Rightarrow> int \<times> world" where
  "delete_files [] deleted_count w = (deleted_count, w)"
| "delete_files (file_path # rest) deleted_count w =
     (case os_remove file_path w of
        (None, w') \<Rightarrow> delete_files rest (deleted_count + 1) w'
      | (Some e, w') \<Rightarrow>
          delete_files rest deleted_count
            (print (''Error deleting '' @ path_str file_path @ '': '' @ e) w'))"

definition delete_phase :: "path list \<Rightarrow> world \<Rightarrow> (error + int) \<times> world" where
  "delete_phase files_to_delete w =
     (case delete_files files_to_delete 0 w of (n, w') \<Rightarrow> (Inr n, w'))"

text \<open>The selection loop of \<^verbatim>\<open>housekeep_by_age\<close> (lines 30 to 33).\<close>

definition older_than :: "int \<Rightarrow> entry list \<Rightarrow> path list" where
  "older_than cutoff_timestamp listing =
     map fst (filter (\<lambda>f. is_file f \<and> st_mtime f < cutoff_timestamp) listing)"

text \<open>What \<^verbatim>\<open>housekeep_by_age\<close> prints before it asks (lines 40 to 44): the number of
  candidates, the first five of them, and how many more there are.\<close>

definition announce_by_age :: "path list \<Rightarrow> int \<Rightarrow> world \<Rightarrow> world" where
  "announce_by_age files_to_delete days_old w =
     (let w1 = print (''Will delete '' @ str_int (int (length files_to_delete))
                 @ '' files older than '' @ str_int days_old @ '' days:'') w;
          w2 = fold (\<lambda>file. print (''  '' @ path_str file)) (take 5 files_to_delete) w1
      in if length files_to_delete > 5
         then print (''  ... and '' @ str_int (int (length files_to_delete) - 5) @ '' more'') w2
         else w2)"

definition housekeep_by_age :: "path \<Rightarrow> int \<Rightarrow> bool \<Rightarrow> world \<Rightarrow> (error + int) \<times> world" where
  "housekeep_by_age directory days_old confirm w =
     (case os_path_exists directory w of (ex, w1) \<Rightarrow>
      if \<not> ex then
        (Inl (FileNotFoundError (''Directory '' @ path_str directory @ '' does not exist'')), w1)
      else
        let cutoff_timestamp = now w1 - timedelta_days days_old
        in case rglob directory w1 of (listing, w2) \<Rightarrow>
        let files_to_delete = older_than cutoff_timestamp listing
        in
          if files_to_delete = [] then
            (Inr 0, print (''No files older than '' @ str_int days_old @ '' days found.'') w2)
          else if confirm then
            (case input ''Proceed? (y/N): '' (announce_by_age files_to_delete days_old w2) of
               (Inl e, w3) \<Rightarrow> (Inl e, w3)
             | (Inr response, w3) \<Rightarrow>
                 if lower response \<noteq> ''y'' then (Inr 0, print ''Deletion cancelled.'' w3)
                 else delete_phase files_to_delete w3)
          else delete_phase files_to_delete w2)"

text \<open>The enumeration loop of \<^verbatim>\<open>housekeep_by_count\<close> (lines 78 to 81).\<close>

definition files_with_mtime :: "entry list \<Rightarrow> (path \<times> int) list" where
  "files_with_mtime listing = map (\<lambda>f. (fst f, st_mtime f)) (filter is_file listing)"

text \<open>\<^verbatim>\<open>files.sort(key=lambda x: x[1], reverse=True)\<close>: Python's sort is stable, also
  with \<^verbatim>\<open>reverse=True\<close>, which is a stable ascending sort on the negated key.\<close>

definition sort_newest_first :: "(path \<times> int) list \<Rightarrow> (path \<times> int) list" where
  "sort_newest_first files = sort_key (\<lambda>x. - snd x) files"

text \<open>What \<^verbatim>\<open>housekeep_by_count\<close> prints before it asks (line 94).\<close>

definition announce_by_count :: "(path \<times> int) list \<Rightarrow> int \<Rightarrow> world \<Rightarrow> world" where
  "announce_by_count files_to_delete keep_count w =
     print (''Will delete '' @ str_int (int (length files_to_delete))
       @ '' files, keeping '' @ str_int keep_count @ '' newest.'') w"

definition housekeep_by_count :: "path \<Rightarrow> int \<Rightarrow> bool \<Rightarrow> world \<Rightarrow> (error + int) \<times> world" where
  "housekeep_by_count directory keep_count confirm w =
     (case os_path_exists directory w of (ex, w1) \<Rightarrow>
      if \<not> ex then
        (Inl (FileNotFoundError (''Directory '' @ path_str directory @ '' does not exist'')), w1)
      else
        case rglob directory w1 of (listing, w2) \<Rightarrow>
        let files = files_with_mtime listing
        in
          if int (length files) \<le> keep_count then
            (Inr 0, print (''Only '' @ str_int (int (length files))
                      @ '' files found, no deletion needed.'') w2)
          else
            let files_to_delete = slice_from (sort_newest_first files) keep_count
            in
              if confirm then
                (case input ''Proceed? (y/N): ''
                        (announce_by_count files_to_delete keep_count w2) of
                   (Inl e, w3) \<Rightarrow> (Inl e, w3)
                 | (Inr response, w3) \<Rightarrow>
                     if lower response \<noteq> ''y'' then (Inr 0, print ''Deletion cancelled.'' w3)
                     else delete_phase (map fst files_to_delete) w3)
              else delete_phase (map fst files_to_delete) w2)"

text \<open>The convenience function. It passes no \<^verbatim>\<open>confirm\<close> argument, so both
  operations run with their default, \<^verbatim>\<open>confirm=True\<close>.\<close>

definition cleanup_directory :: "path \<Rightarrow> int option \<Rightarrow> int option \<Rightarrow> world \<Rightarrow> (error + int) \<times> world" where
  "cleanup_directory directory days_old keep_count w =
     (case days_old of
        Some d \<Rightarrow> housekeep_by_age directory d True w
      | None \<Rightarrow>
          (case keep_count of
             Some k \<Rightarrow> housekeep_by_count directory k True w
           | None \<Rightarrow> (Inr 0, print ''Specify days_old or keep_count'' w)))"

section \<open>What a run is observed by\<close>

text \<open>The paths handed to \<^verbatim>\<open>os.remove\<close>, in order, and the calls of \<^verbatim>\<open>input\<close>.\<close>

fun removes :: "event list \<Rightarrow> path list" where
  "removes [] = []"
| "removes (Remove p # t) = p # removes t"
| "removes (_ # t) = removes t"

fun is_input :: "event \<Rightarrow> bool" where
  "is_input (Input _) = True"
| "is_input _ = False"

text \<open>\<^verbatim>\<open>os.remove\<close> succeeds on \<open>p\<close>.\<close>

definition removable :: "world \<Rightarrow> path \<Rightarrow> bool" where
  "removable w p =
     (case map_of (fs w) p of
        None \<Rightarrow> False
      | Some n \<Rightarrow> node_kind n = RegularFile \<and> node_rm_error n = None)"

text \<open>What the enumeration of \<open>d\<close> yields, and the candidates each policy selects.\<close>

definition listing :: "world \<Rightarrow> path \<Rightarrow> entry list" where
  "listing w d = fst (rglob d w)"

definition eligible_by_age :: "world \<Rightarrow> path \<Rightarrow> int \<Rightarrow> path list" where
  "eligible_by_age w d days_old = older_than (now w - timedelta_days days_old) (listing w d)"

definition discovered_files :: "world \<Rightarrow> path \<Rightarrow> (path \<times> int) list" where
  "discovered_files w d = files_with_mtime (listing w d)"

definition eligible_by_count :: "world \<Rightarrow> path \<Rightarrow> int \<Rightarrow> path list" where
  "eligible_by_count w d keep_count =
     map fst (slice_from (sort_newest_first (discovered_files w d)) keep_count)"

text \<open>The world after the existence check and the enumeration, and after one line was
  read at the prompt.\<close>

definition scanned :: "path \<Rightarrow> world \<Rightarrow> world" where
  "scanned d w = emit (Rglob d) (emit (Exists d) w)"

definition answered :: "string list \<Rightarrow> world \<Rightarrow> world" where
  "answered rest w = emit (Input ''Proceed? (y/N): '') (w\<lparr>stdin := rest\<rparr>)"

text \<open>A run that neither prompts nor deletes: the filesystem and the unread input are
  as before, and the trace gained no call of \<^verbatim>\<open>input\<close> or \<^verbatim>\<open>os.remove\<close>.\<close>

definition no_prompt_no_delete :: "world \<Rightarrow> world \<Rightarrow> bool" where
  "no_prompt_no_delete w w' =
     (fs w' = fs w \<and> stdin w' = stdin w
      \<and> removes (trace w') = removes (trace w)
      \<and> filter is_input (trace w') = filter is_input (trace w))"

subsection \<open>Example worlds\<close>

definition a_dir :: "path \<Rightarrow> entry" where
  "a_dir p = (p, Node Directory 0 None)"

definition a_file :: "path \<Rightarrow> int \<Rightarrow> entry" where
  "a_file p m = (p, Node RegularFile m None)"

definition a_locked_file :: "path \<Rightarrow> int \<Rightarrow> entry" where
  "a_locked_file p m = (p, Node RegularFile m (Some ''Permission denied''))"

definition world_of :: "entry list \<Rightarrow> int \<Rightarrow> string list \<Rightarrow> world" where
  "world_of entries t lines = \<lparr>fs = entries, now = t, stdin = lines, trace = []\<rparr>"

text \<open>One directory holding one file last modified ten days before now.\<close>

definition one_old_file :: "string list \<Rightarrow> world" where
  "one_old_file lines =
     world_of [a_dir [''data''], a_file [''data'', ''old.log''] 0] 864000000000 lines"

text \<open>What a best-effort deletion of the candidates \<open>E\<close> from the world \<open>w\<close> leaves behind:
  the count of the removals that succeed, every candidate handed to \<^verbatim>\<open>os.remove\<close>
  in order, and a filesystem that lost exactly the candidates whose removal succeeds.\<close>

definition best_effort :: "world \<Rightarrow> path list \<Rightarrow> (error + int) \<times> world \<Rightarrow> bool" where
  "best_effort w E res =
     (fst res = Inr (int (length (filter (removable w) E)))
      \<and> removes (trace (snd res)) = removes (trace w) @ E
      \<and> fs (snd res) = filter (\<lambda>e. fst e \<notin> set (filter (removable w) E)) (fs w))"

text \<open>One directory holding three files older than a week; the second cannot be removed.\<close>

definition three_old_files :: "string list \<Rightarrow> world" where
  "three_old_files lines =
     world_of [a_dir [''data''],
               a_file [''data'', ''a''] 0,
               a_locked_file [''data'', ''b''] 1,
               a_file [''data'', ''c''] 2] 864000000000 lines"

text \<open>The paths handed to \<^verbatim>\<open>os.remove\<close> on the way from \<open>w\<close> to \<open>w'\<close>.\<close>

definition attempted :: "world \<Rightarrow> world \<Rightarrow> path list" where
  "attempted w w' = drop (length (removes (trace w))) (removes (trace w'))"

text \<open>A week and 1000 microseconds after the epoch: the cutoff of seven days is 1000.
  One file was modified exactly then, one a microsecond earlier.\<close>

definition at_the_cutoff :: world where
  "at_the_cutoff =
     world_of [a_dir [''data''],
               a_file [''data'', ''edge''] 1000,
               a_file [''data'', ''older''] 999] 604800001000 []"

text \<open>A week and 1000 microseconds after the epoch again: one file is older than the
  cutoff of seven days, two were modified exactly at the cutoff.\<close>

definition two_at_the_cutoff :: world where
  "two_at_the_cutoff =
     world_of [a_dir [''data''],
               a_file [''data'', ''gone''] 0,
               a_file [''data'', ''x''] 1000,
               a_file [''data'', ''y''] 1000] 604800001000 []"

text \<open>Every file of \<open>files\<close> whose path is in \<open>D\<close> was modified strictly before every
  file whose path is not: \<open>D\<close> holds the oldest.\<close>

definition holds_the_oldest :: "(path \<times> int) list \<Rightarrow> path list \<Rightarrow> bool" where
  "holds_the_oldest files D =
     (\<forall>x\<in>set files. \<forall>y\<in>set files. fst x \<in> set D \<and> fst y \<notin> set D \<longrightarrow> snd x < snd y)"

text \<open>The scenario of the test suite: ten hours after the epoch, seven files modified
  0, 1, ..., 6 hours ago, enumerated in that order.\<close>

definition seven_files :: world where
  "seven_files =
     world_of [a_dir [''data''],
               a_file [''data'', ''file_0''] 36000000000,
               a_file [''data'', ''file_1''] 32400000000,
               a_file [''data'', ''file_2''] 28800000000,
               a_file [''data'', ''file_3''] 25200000000,
               a_file [''data'', ''file_4''] 21600000000,
               a_file [''data'', ''file_5''] 18000000000,
               a_file [''data'', ''file_6''] 14400000000] 36000000000 []"

section \<open>Basic facts\<close>

lemma removes_append: "removes (xs @ ys) = removes xs @ removes ys"
  by (induction xs rule: removes.induct) simp_all

lemma map_of_filter_neq:
  "map_of (filter (\<lambda>e. fst e \<noteq> p) xs) q = (if q = p then None else map_of xs q)"
  by (induction xs) auto

lemma lower_char_y: "lower_char c = CHR ''y'' \<longleftrightarrow> c = CHR ''y'' \<or> c = CHR ''Y''"
  by (simp add: lower_char_def)

lemma lower_eq_y: "lower r = ''y'' \<longleftrightarrow> r = ''y'' \<or> r = ''Y''"
  by (cases r) (auto simp: lower_def lower_char_y)

lemma emit_simps [simp]:
  "fs (emit e w) = fs w" "now (emit e w) = now w" "stdin (emit e w) = stdin w"
  "trace (emit e w) = trace w @ [e]"
  by (simp_all add: emit_def)

lemma print_simps [simp]:
  "fs (print s w) = fs w" "now (print s w) = now w" "stdin (print s w) = stdin w"
  "trace (print s w) = trace w @ [Print s]"
  by (simp_all add: print_def)

lemma scanned_simps [simp]:
  "fs (scanned d w) = fs w" "now (scanned d w) = now w" "stdin (scanned d w) = stdin w"
  "trace (scanned d w) = trace w @ [Exists d, Rglob d]"
  by (simp_all add: scanned_def)

lemma answered_simps [simp]:
  "fs (answered rest w) = fs w" "now (answered rest w) = now w"
  "stdin (answered rest w) = rest"
  "trace (answered rest w) = trace w @ [Input ''Proceed? (y/N): '']"
  by (simp_all add: answered_def)

section \<open>The deletion loop\<close>

lemma removable_fs: "fs w1 = fs w \<Longrightarrow> removable w1 p = removable w p"
  by (simp add: removable_def)

lemma os_remove_ok:
  "removable w p \<Longrightarrow>
   os_remove p w = (None, (emit (Remove p) w)\<lparr>fs := filter (\<lambda>e. fst e \<noteq> p) (fs w)\<rparr>)"
  by (auto simp: os_remove_def removable_def Let_def split: option.splits)

lemma os_remove_fail:
  "\<not> removable w p \<Longrightarrow> \<exists>msg. os_remove p w = (Some msg, emit (Remove p) w)"
  by (cases "node_kind (the (map_of (fs w) p))")
     (auto simp: os_remove_def removable_def Let_def split: option.splits)

lemma removable_after_remove:
  "q \<noteq> p \<Longrightarrow> removable (w\<lparr>fs := filter (\<lambda>e. fst e \<noteq> p) (fs w0)\<rparr>) q = removable w0 q"
  by (simp add: removable_def map_of_filter_neq)

text \<open>Every path of the list is handed to \<^verbatim>\<open>os.remove\<close>, in order; the counter grows
  by the number of removals that succeed, and exactly those files leave the filesystem.\<close>

lemma delete_files_spec:
  "distinct ps \<Longrightarrow> delete_files ps n w = (n', w') \<Longrightarrow>
     n' = n + int (length (filter (removable w) ps)) \<and>
     fs w' = filter (\<lambda>e. fst e \<notin> set (filter (removable w) ps)) (fs w) \<and>
     removes (trace w') = removes (trace w) @ ps \<and>
     filter is_input (trace w') = filter is_input (trace w) \<and>
     stdin w' = stdin w \<and> now w' = now w"
proof (induction ps arbitrary: n w)
  case Nil
  then show ?case by simp
next
  case (Cons p ps)
  from Cons.prems have dist: "distinct ps" and notin: "p \<notin> set ps" by simp_all
  show ?case
  proof (cases "removable w p")
    case True
    define w1 where "w1 = (emit (Remove p) w)\<lparr>fs := filter (\<lambda>e. fst e \<noteq> p) (fs w)\<rparr>"
    from True Cons.prems(2) have run: "delete_files ps (n + 1) w1 = (n', w')"
      by (simp add: os_remove_ok w1_def)
    have rem: "\<And>q. q \<noteq> p \<Longrightarrow> removable w1 q = removable w q"
      unfolding w1_def by (rule removable_after_remove)
    have w1: "fs w1 = filter (\<lambda>e. fst e \<noteq> p) (fs w)" "trace w1 = trace w @ [Remove p]"
      "stdin w1 = stdin w" "now w1 = now w"
      by (simp_all add: w1_def)
    have same: "filter (removable w1) ps = filter (removable w) ps"
      using notin by (intro filter_cong[OF refl] rem) auto
    have fs_eq: "filter (\<lambda>e. fst e \<notin> set (filter (removable w1) ps)) (fs w1)
                 = filter (\<lambda>e. fst e \<notin> set (filter (removable w) (p # ps))) (fs w)"
      using True unfolding same w1 filter_filter by (intro filter_cong[OF refl]) auto
    from Cons.IH[OF dist run] have
      "n' = n + 1 + int (length (filter (removable w1) ps))"
      "fs w' = filter (\<lambda>e. fst e \<notin> set (filter (removable w1) ps)) (fs w1)"
      "removes (trace w') = removes (trace w1) @ ps"
      "filter is_input (trace w') = filter is_input (trace w1)"
      "stdin w' = stdin w1" "now w' = now w1"
      by simp_all
    with True show ?thesis
      unfolding fs_eq by (simp add: same w1 removes_append)
  next
    case False
    then obtain msg where rm: "os_remove p w = (Some msg, emit (Remove p) w)"
      using os_remove_fail by blast
    define w1 where "w1 = print (''Error deleting '' @ path_str p @ '': '' @ msg) (emit (Remove p) w)"
    have "delete_files (p # ps) n w = delete_files ps n w1"
      unfolding w1_def delete_files.simps rm by simp
    with Cons.prems(2) have run: "delete_files ps n w1 = (n', w')"
      by simp
    have w1: "fs w1 = fs w" "removes (trace w1) = removes (trace w) @ [p]"
      "filter is_input (trace w1) = filter is_input (trace w)"
      "stdin w1 = stdin w" "now w1 = now w"
      by (simp_all add: w1_def removes_append)
    have rem: "removable w1 = removable w"
      using w1(1) by (auto simp: removable_def fun_eq_iff)
    from Cons.IH[OF dist run] have
      "n' = n + int (length (filter (removable w1) ps))"
      "fs w' = filter (\<lambda>e. fst e \<notin> set (filter (removable w1) ps)) (fs w1)"
      "removes (trace w') = removes (trace w1) @ ps"
      "filter is_input (trace w') = filter is_input (trace w1)"
      "stdin w' = stdin w1" "now w' = now w1"
      by simp_all
    with False show ?thesis
      unfolding rem w1 by simp
  qed
qed

lemma delete_phase_spec:
  assumes "distinct ps"
  shows "fst (delete_phase ps w) = Inr (int (length (filter (removable w) ps)))"
    and "fs (snd (delete_phase ps w)) = filter (\<lambda>e. fst e \<notin> set (filter (removable w) ps)) (fs w)"
    and "removes (trace (snd (delete_phase ps w))) = removes (trace w) @ ps"
    and "filter is_input (trace (snd (delete_phase ps w))) = filter is_input (trace w)"
    and "stdin (snd (delete_phase ps w)) = stdin w"
    and "now (snd (delete_phase ps w)) = now w"
proof -
  obtain n' w' where run: "delete_files ps 0 w = (n', w')"
    by (cases "delete_files ps 0 w")
  note spec = delete_files_spec[OF assms run]
  have dp: "delete_phase ps w = (Inr n', w')"
    by (simp add: delete_phase_def run)
  show "fst (delete_phase ps w) = Inr (int (length (filter (removable w) ps)))"
    using spec by (simp add: dp)
  show "fs (snd (delete_phase ps w)) = filter (\<lambda>e. fst e \<notin> set (filter (removable w) ps)) (fs w)"
    using spec unfolding dp snd_conv by blast
  show "removes (trace (snd (delete_phase ps w))) = removes (trace w) @ ps"
    using spec unfolding dp snd_conv by blast
  show "filter is_input (trace (snd (delete_phase ps w))) = filter is_input (trace w)"
    using spec unfolding dp snd_conv by blast
  show "stdin (snd (delete_phase ps w)) = stdin w"
    using spec unfolding dp snd_conv by blast
  show "now (snd (delete_phase ps w)) = now w"
    using spec unfolding dp snd_conv by blast
qed

section \<open>The paths through the two operations\<close>

lemma rglob_eq: "rglob d w = (listing w d, emit (Rglob d) w)"
  by (simp add: listing_def rglob_def)

lemma listing_fs: "fs w1 = fs w \<Longrightarrow> listing w1 d = listing w d"
  unfolding listing_def rglob_def fst_conv by (erule ssubst) (rule refl)

lemma listing_emit: "listing (emit e w) d = listing w d"
  by (rule listing_fs) simp

lemma fold_print_fs: "fs (fold (\<lambda>x. print (g x)) xs w) = fs w"
  by (induction xs arbitrary: w) simp_all

lemma fold_print_now: "now (fold (\<lambda>x. print (g x)) xs w) = now w"
  by (induction xs arbitrary: w) simp_all

lemma fold_print_stdin: "stdin (fold (\<lambda>x. print (g x)) xs w) = stdin w"
  by (induction xs arbitrary: w) simp_all

lemma fold_print_removes:
  "removes (trace (fold (\<lambda>x. print (g x)) xs w)) = removes (trace w)"
  by (induction xs arbitrary: w) (simp_all add: removes_append)

lemma fold_print_inputs:
  "filter is_input (trace (fold (\<lambda>x. print (g x)) xs w)) = filter is_input (trace w)"
  by (induction xs arbitrary: w) simp_all

lemma announce_by_age_simps [simp]:
  "fs (announce_by_age E n w) = fs w" "now (announce_by_age E n w) = now w"
  "stdin (announce_by_age E n w) = stdin w"
  "removes (trace (announce_by_age E n w)) = removes (trace w)"
  "filter is_input (trace (announce_by_age E n w)) = filter is_input (trace w)"
  by (simp_all add: announce_by_age_def Let_def removes_append fold_print_fs fold_print_now
      fold_print_stdin fold_print_removes fold_print_inputs)

lemma announce_by_count_simps [simp]:
  "fs (announce_by_count E n w) = fs w" "now (announce_by_count E n w) = now w"
  "stdin (announce_by_count E n w) = stdin w"
  "removes (trace (announce_by_count E n w)) = removes (trace w)"
  "filter is_input (trace (announce_by_count E n w)) = filter is_input (trace w)"
  by (simp_all add: announce_by_count_def removes_append)

lemma input_line:
  "stdin w = r # rest \<Longrightarrow> input ''Proceed? (y/N): '' w = (Inr r, answered rest w)"
  by (simp add: input_def answered_def)

lemma housekeep_by_age_missing:
  "map_of (fs w) d = None \<Longrightarrow>
   housekeep_by_age d n c w =
     (Inl (FileNotFoundError (''Directory '' @ path_str d @ '' does not exist'')),
      emit (Exists d) w)"
  by (simp add: housekeep_by_age_def os_path_exists_def)

lemma housekeep_by_count_missing:
  "map_of (fs w) d = None \<Longrightarrow>
   housekeep_by_count d k c w =
     (Inl (FileNotFoundError (''Directory '' @ path_str d @ '' does not exist'')),
      emit (Exists d) w)"
  by (simp add: housekeep_by_count_def os_path_exists_def)

lemma housekeep_by_age_none:
  "map_of (fs w) d \<noteq> None \<Longrightarrow> eligible_by_age w d n = [] \<Longrightarrow>
   housekeep_by_age d n c w =
     (Inr 0, print (''No files older than '' @ str_int n @ '' days found.'') (scanned d w))"
  by (simp add: housekeep_by_age_def os_path_exists_def rglob_eq listing_emit
      eligible_by_age_def scanned_def)

lemma housekeep_by_age_direct:
  "map_of (fs w) d \<noteq> None \<Longrightarrow> eligible_by_age w d n \<noteq> [] \<Longrightarrow>
   housekeep_by_age d n False w = delete_phase (eligible_by_age w d n) (scanned d w)"
  by (simp add: housekeep_by_age_def os_path_exists_def rglob_eq listing_emit
      eligible_by_age_def scanned_def)

lemma housekeep_by_age_asked:
  assumes "map_of (fs w) d \<noteq> None" and "eligible_by_age w d n \<noteq> []"
    and "stdin w = r # rest"
  shows "housekeep_by_age d n True w =
           (if lower r \<noteq> ''y''
            then (Inr 0, print ''Deletion cancelled.''
                    (answered rest (announce_by_age (eligible_by_age w d n) n (scanned d w))))
            else delete_phase (eligible_by_age w d n)
                    (answered rest (announce_by_age (eligible_by_age w d n) n (scanned d w))))"
proof -
  have "stdin (announce_by_age (eligible_by_age w d n) n (scanned d w)) = r # rest"
    using assms(3) by simp
  from input_line[OF this] assms(1,2) show ?thesis
    by (simp add: housekeep_by_age_def os_path_exists_def rglob_eq listing_emit
        eligible_by_age_def scanned_def Let_def)
qed

lemma housekeep_by_count_few:
  "map_of (fs w) d \<noteq> None \<Longrightarrow> int (length (discovered_files w d)) \<le> k \<Longrightarrow>
   housekeep_by_count d k c w =
     (Inr 0, print (''Only '' @ str_int (int (length (discovered_files w d)))
               @ '' files found, no deletion needed.'') (scanned d w))"
  by (simp add: housekeep_by_count_def os_path_exists_def rglob_eq listing_emit
      discovered_files_def scanned_def)

lemma housekeep_by_count_direct:
  "map_of (fs w) d \<noteq> None \<Longrightarrow> \<not> int (length (discovered_files w d)) \<le> k \<Longrightarrow>
   housekeep_by_count d k False w = delete_phase (eligible_by_count w d k) (scanned d w)"
  by (simp add: housekeep_by_count_def os_path_exists_def rglob_eq listing_emit
      discovered_files_def eligible_by_count_def scanned_def Let_def)

lemma housekeep_by_count_asked:
  assumes "map_of (fs w) d \<noteq> None" and "\<not> int (length (discovered_files w d)) \<le> k"
    and "stdin w = r # rest"
  shows "housekeep_by_count d k True w =
           (if lower r \<noteq> ''y''
            then (Inr 0, print ''Deletion cancelled.''
                    (answered rest (announce_by_count
                       (slice_from (sort_newest_first (discovered_files w d)) k) k (scanned d w))))
            else delete_phase (eligible_by_count w d k)
                    (answered rest (announce_by_count
                       (slice_from (sort_newest_first (discovered_files w d)) k) k (scanned d w))))"
proof -
  have "\<And>fl. stdin (announce_by_count fl k (scanned d w)) = r # rest"
    using assms(3) by simp
  from input_line[OF this] assms(1,2) show ?thesis
    by (simp add: housekeep_by_count_def os_path_exists_def rglob_eq listing_emit
        discovered_files_def eligible_by_count_def scanned_def Let_def)
qed

section \<open>The dispatcher\<close>

text \<open>
  C9. Called with neither \<^verbatim>\<open>days_old\<close> nor \<^verbatim>\<open>keep_count\<close>,
  \<^verbatim>\<open>cleanup_directory\<close> prints the usage hint and returns 0: no error, and the only
  thing the world gains is that one printed line (no existence check, no enumeration,
  no removal, no prompt), whether the directory exists or not.
\<close>

theorem cleanup_directory_no_policy:
  "cleanup_directory d None None w =
     (Inr 0, w\<lparr>trace := trace w @ [Print ''Specify days_old or keep_count'']\<rparr>)"
  by (simp add: cleanup_directory_def print_def emit_def)

theorem cleanup_directory_no_policy_witness:
  "cleanup_directory [''missing''] None None (one_old_file []) =
     (Inr 0, (one_old_file [])\<lparr>trace := [Print ''Specify days_old or keep_count'']\<rparr>)"
  using cleanup_directory_no_policy [of "[''missing'']" "one_old_file []"]
  by (simp add: one_old_file_def world_of_def)

text \<open>
  C1, as the code has it. \<^verbatim>\<open>cleanup_directory\<close> calls the two operations without a
  \<^verbatim>\<open>confirm\<close> argument, so they run with the default \<^verbatim>\<open>confirm=True\<close>: with
  \<^verbatim>\<open>days_old\<close> given (whatever \<^verbatim>\<open>keep_count\<close> is) the result is that of
  \<^verbatim>\<open>housekeep_by_age\<close> with confirmation on, and with only \<^verbatim>\<open>keep_count\<close> given it is
  that of \<^verbatim>\<open>housekeep_by_count\<close> with confirmation on.
\<close>

theorem cleanup_directory_delegates_with_confirmation:
  "cleanup_directory d (Some n) kc w = housekeep_by_age d n True w
   \<and> cleanup_directory d None (Some k) w = housekeep_by_count d k True w"
  by (simp add: cleanup_directory_def)

theorem cleanup_directory_delegates_with_confirmation_witness:
  "cleanup_directory [''data''] (Some 7) (Some 3) (one_old_file [''n''])
     = housekeep_by_age [''data''] 7 True (one_old_file [''n''])
   \<and> cleanup_directory [''data''] None (Some 0) (one_old_file [''n''])
     = housekeep_by_count [''data''] 0 True (one_old_file [''n''])"
  using cleanup_directory_delegates_with_confirmation
          [of "[''data'']" 7 "Some 3" "one_old_file [''n'']" 0]
  by simp

lemmas world_defs =
  one_old_file_def world_of_def a_dir_def a_file_def a_locked_file_def

lemmas select_defs =
  eligible_by_age_def eligible_by_count_def discovered_files_def listing_def rglob_def
  older_than_def files_with_mtime_def sort_newest_first_def slice_from_def
  is_file_def st_mtime_def timedelta_days_def removable_def

lemma one_old_file_facts:
  "map_of (fs (one_old_file lines)) [''data''] \<noteq> None"
  "eligible_by_age (one_old_file lines) [''data''] 7 = [[''data'', ''old.log'']]"
  "eligible_by_count (one_old_file lines) [''data''] 0 = [[''data'', ''old.log'']]"
  "discovered_files (one_old_file lines) [''data''] = [([''data'', ''old.log''], 0)]"
  "stdin (one_old_file lines) = lines"
  "removable (one_old_file lines) [''data'', ''old.log'']"
  "distinct (map fst (fs (one_old_file lines)))"
  by (simp_all add: world_defs select_defs)

text \<open>
  C1, as the spec states it, fails: with one file ten days old and an operator who answers
  \<open>n\<close>, \<^verbatim>\<open>cleanup_directory\<close> asks, is refused and returns 0, while
  \<^verbatim>\<open>housekeep_by_age\<close> with confirmation suppressed deletes the file and returns 1.
\<close>

theorem cleanup_directory_not_suppressed:
  "cleanup_directory [''data''] (Some 7) None (one_old_file [''n''])
     \<noteq> housekeep_by_age [''data''] 7 False (one_old_file [''n''])"
proof -
  let ?w = "one_old_file [''n'']"
  have "fst (cleanup_directory [''data''] (Some 7) None ?w) = Inr 0"
    by (simp add: cleanup_directory_def housekeep_by_age_asked [where r = "''n''" and rest = "[]"]
        one_old_file_facts lower_eq_y)
  moreover have "fst (housekeep_by_age [''data''] 7 False ?w) = Inr 1"
    by (simp add: housekeep_by_age_direct delete_phase_spec one_old_file_facts removable_fs)
  ultimately show ?thesis by auto
qed

section \<open>Preconditions and early returns\<close>

text \<open>
  C3. When the directory does not exist, both \<^verbatim>\<open>housekeep_by_age\<close> and
  \<^verbatim>\<open>housekeep_by_count\<close> raise \<^verbatim>\<open>FileNotFoundError\<close>, whatever the other
  arguments. The world gained only the existence check: nothing was enumerated, nothing
  printed or asked, \<^verbatim>\<open>os.remove\<close> was never called and the filesystem is unchanged.
\<close>

theorem missing_directory_raises:
  assumes "map_of (fs w) d = None"
  shows "housekeep_by_age d n c w =
           (Inl (FileNotFoundError (''Directory '' @ path_str d @ '' does not exist'')),
            w\<lparr>trace := trace w @ [Exists d]\<rparr>)
       \<and> housekeep_by_count d k c w =
           (Inl (FileNotFoundError (''Directory '' @ path_str d @ '' does not exist'')),
            w\<lparr>trace := trace w @ [Exists d]\<rparr>)
       \<and> fs (snd (housekeep_by_age d n c w)) = fs w
       \<and> fs (snd (housekeep_by_count d k c w)) = fs w
       \<and> removes (trace (snd (housekeep_by_age d n c w))) = removes (trace w)
       \<and> removes (trace (snd (housekeep_by_count d k c w))) = removes (trace w)"
  using assms
  by (simp add: housekeep_by_age_missing housekeep_by_count_missing emit_def removes_append)

theorem missing_directory_raises_witness:
  "map_of (fs (one_old_file [])) [''nowhere''] = None
   \<and> fst (housekeep_by_age [''nowhere''] 7 False (one_old_file []))
       = Inl (FileNotFoundError ''Directory /nowhere does not exist'')
   \<and> fst (housekeep_by_count [''nowhere''] 5 False (one_old_file []))
       = Inl (FileNotFoundError ''Directory /nowhere does not exist'')
   \<and> trace (snd (housekeep_by_age [''nowhere''] 7 False (one_old_file [])))
       = [Exists [''nowhere'']]
   \<and> trace (snd (housekeep_by_count [''nowhere''] 5 False (one_old_file [])))
       = [Exists [''nowhere'']]
   \<and> fs (snd (housekeep_by_age [''nowhere''] 7 False (one_old_file [])))
       = fs (one_old_file [])"
proof -
  have h: "map_of (fs (one_old_file [])) [''nowhere''] = None"
    by (simp add: world_defs)
  show ?thesis
    using h missing_directory_raises [OF h, of 7 False 5]
    by (simp add: path_str_def world_defs)
qed

text \<open>
  C6. In an existing directory, when no file is older than the cutoff
  (\<^verbatim>\<open>housekeep_by_age\<close>), or when the number of files found is at most
  \<^verbatim>\<open>keep_count\<close> (\<^verbatim>\<open>housekeep_by_count\<close>), the operation returns 0, whatever
  \<^verbatim>\<open>confirm\<close> is: the filesystem is unchanged, \<^verbatim>\<open>os.remove\<close> was never called,
  \<^verbatim>\<open>input\<close> was never called and no line of input was consumed.
\<close>

theorem nothing_to_delete_returns_zero:
  assumes "map_of (fs w) d \<noteq> None"
  shows "(eligible_by_age w d n = [] \<longrightarrow>
            fst (housekeep_by_age d n confirm w) = Inr 0
            \<and> no_prompt_no_delete w (snd (housekeep_by_age d n confirm w)))
       \<and> (int (length (discovered_files w d)) \<le> k \<longrightarrow>
            fst (housekeep_by_count d k confirm w) = Inr 0
            \<and> no_prompt_no_delete w (snd (housekeep_by_count d k confirm w)))"
  using assms
  by (simp add: housekeep_by_age_none housekeep_by_count_few no_prompt_no_delete_def
      removes_append)

theorem nothing_to_delete_returns_zero_witness:
  "map_of (fs (one_old_file [''y''])) [''data''] \<noteq> None
   \<and> eligible_by_age (one_old_file [''y'']) [''data''] 30 = []
   \<and> int (length (discovered_files (one_old_file [''y'']) [''data''])) \<le> 5
   \<and> fst (housekeep_by_age [''data''] 30 True (one_old_file [''y''])) = Inr 0
   \<and> no_prompt_no_delete (one_old_file [''y''])
        (snd (housekeep_by_age [''data''] 30 True (one_old_file [''y''])))
   \<and> fst (housekeep_by_count [''data''] 5 True (one_old_file [''y''])) = Inr 0
   \<and> no_prompt_no_delete (one_old_file [''y''])
        (snd (housekeep_by_count [''data''] 5 True (one_old_file [''y''])))"
proof -
  have h: "map_of (fs (one_old_file [''y''])) [''data''] \<noteq> None"
    by (rule one_old_file_facts)
  have e: "eligible_by_age (one_old_file [''y'']) [''data''] 30 = []"
    by (simp add: world_defs select_defs)
  have f: "int (length (discovered_files (one_old_file [''y'']) [''data''])) \<le> 5"
    by (simp add: one_old_file_facts)
  show ?thesis
    using h e f nothing_to_delete_returns_zero [OF h, of 30 True 5]
    by simp
qed

section \<open>Confirmation\<close>

lemma eligible_by_count_nonempty:
  "eligible_by_count w d k \<noteq> [] \<Longrightarrow> \<not> int (length (discovered_files w d)) \<le> k"
  by (auto simp: eligible_by_count_def slice_from_def sort_newest_first_def split: if_splits)

text \<open>
  C4. With \<^verbatim>\<open>confirm=True\<close>, an existing directory, a non-empty set of candidates and
  a line read at the prompt that is neither \<open>y\<close> nor \<open>Y\<close>, both operations return 0; the
  last thing they do is print \<open>Deletion cancelled.\<close>; \<^verbatim>\<open>os.remove\<close> is never called
  and the filesystem is unchanged.
\<close>

theorem refusal_cancels_deletion:
  assumes "map_of (fs w) d \<noteq> None" and "stdin w = r # rest"
    and "r \<noteq> ''y''" and "r \<noteq> ''Y''"
  shows "(eligible_by_age w d n \<noteq> [] \<longrightarrow>
            fst (housekeep_by_age d n True w) = Inr 0
            \<and> last (trace (snd (housekeep_by_age d n True w))) = Print ''Deletion cancelled.''
            \<and> removes (trace (snd (housekeep_by_age d n True w))) = removes (trace w)
            \<and> fs (snd (housekeep_by_age d n True w)) = fs w)
       \<and> (eligible_by_count w d k \<noteq> [] \<longrightarrow>
            fst (housekeep_by_count d k True w) = Inr 0
            \<and> last (trace (snd (housekeep_by_count d k True w))) = Print ''Deletion cancelled.''
            \<and> removes (trace (snd (housekeep_by_count d k True w))) = removes (trace w)
            \<and> fs (snd (housekeep_by_count d k True w)) = fs w)"
proof -
  from assms(3,4) have no: "lower r \<noteq> ''y''"
    by (simp add: lower_eq_y)
  have age: "eligible_by_age w d n \<noteq> [] \<Longrightarrow>
      housekeep_by_age d n True w =
        (Inr 0, print ''Deletion cancelled.''
           (answered rest (announce_by_age (eligible_by_age w d n) n (scanned d w))))"
    using housekeep_by_age_asked [OF assms(1) _ assms(2)] no by simp
  have count: "eligible_by_count w d k \<noteq> [] \<Longrightarrow>
      housekeep_by_count d k True w =
        (Inr 0, print ''Deletion cancelled.''
           (answered rest (announce_by_count
              (slice_from (sort_newest_first (discovered_files w d)) k) k (scanned d w))))"
    using housekeep_by_count_asked [OF assms(1) eligible_by_count_nonempty assms(2)] no
    by simp
  show ?thesis
  proof (intro conjI impI)
    assume a: "eligible_by_age w d n \<noteq> []"
    show "fst (housekeep_by_age d n True w) = Inr 0"
      by (simp add: age [OF a])
    show "last (trace (snd (housekeep_by_age d n True w))) = Print ''Deletion cancelled.''"
      by (simp add: age [OF a])
    show "removes (trace (snd (housekeep_by_age d n True w))) = removes (trace w)"
      by (simp add: age [OF a] removes_append)
    show "fs (snd (housekeep_by_age d n True w)) = fs w"
      by (simp add: age [OF a])
  next
    assume a: "eligible_by_count w d k \<noteq> []"
    show "fst (housekeep_by_count d k True w) = Inr 0"
      by (simp add: count [OF a])
    show "last (trace (snd (housekeep_by_count d k True w))) = Print ''Deletion cancelled.''"
      by (simp add: count [OF a])
    show "removes (trace (snd (housekeep_by_count d k True w))) = removes (trace w)"
      by (simp add: count [OF a] removes_append)
    show "fs (snd (housekeep_by_count d k True w)) = fs w"
      by (simp add: count [OF a])
  qed
qed

theorem refusal_cancels_deletion_witness:
  "map_of (fs (one_old_file [''n''])) [''data''] \<noteq> None
   \<and> eligible_by_age (one_old_file [''n'']) [''data''] 7 \<noteq> []
   \<and> eligible_by_count (one_old_file [''n'']) [''data''] 0 \<noteq> []
   \<and> fst (housekeep_by_age [''data''] 7 True (one_old_file [''n''])) = Inr 0
   \<and> fst (housekeep_by_count [''data''] 0 True (one_old_file [''n''])) = Inr 0
   \<and> fs (snd (housekeep_by_age [''data''] 7 True (one_old_file [''n'']))) = fs (one_old_file [''n''])
   \<and> removes (trace (snd (housekeep_by_count [''data''] 0 True (one_old_file [''n''])))) = []
   \<and> fst (housekeep_by_age [''data''] 7 True (one_old_file [''''])) = Inr 0
   \<and> fst (housekeep_by_count [''data''] 0 True (one_old_file [''''])) = Inr 0
   \<and> removes (trace (snd (housekeep_by_age [''data''] 7 True (one_old_file [''''])))) = []
   \<and> fst (housekeep_by_age [''data''] 7 True (one_old_file [''no''])) = Inr 0
   \<and> fst (housekeep_by_count [''data''] 0 True (one_old_file [''no''])) = Inr 0
   \<and> last (trace (snd (housekeep_by_age [''data''] 7 True (one_old_file [''no'']))))
       = Print ''Deletion cancelled.''"
proof -
  have h: "map_of (fs (one_old_file ls)) [''data''] \<noteq> None" for ls
    by (rule one_old_file_facts)
  have s: "stdin (one_old_file [r]) = r # []" for r
    by (simp add: one_old_file_facts)
  have t: "removes (trace (one_old_file ls)) = []" for ls
    by (simp add: world_defs)
  show ?thesis
    using h [of "[''n'']"]
      refusal_cancels_deletion [OF h s, of "''n''" 7 0]
      refusal_cancels_deletion [OF h s, of "''''" 7 0]
      refusal_cancels_deletion [OF h s, of "''no''" 7 0]
    by (simp add: one_old_file_facts t)
qed

section \<open>Best-effort deletion\<close>

lemma distinct_listing:
  "distinct (map fst (fs w)) \<Longrightarrow> distinct (map fst (listing w d))"
  by (simp add: listing_def rglob_def distinct_map_filter split: option.splits)

lemma distinct_eligible_by_age:
  "distinct (map fst (fs w)) \<Longrightarrow> distinct (eligible_by_age w d n)"
  by (simp add: eligible_by_age_def older_than_def distinct_map_filter distinct_listing)

lemma distinct_discovered_files:
  "distinct (map fst (fs w)) \<Longrightarrow> distinct (map fst (discovered_files w d))"
  using distinct_map_filter [OF distinct_listing, of w is_file d]
  by (simp add: discovered_files_def files_with_mtime_def comp_def)

lemma distinct_eligible_by_count:
  assumes "distinct (map fst (fs w))"
  shows "distinct (eligible_by_count w d k)"
proof -
  have "distinct (map fst (sort_newest_first (discovered_files w d)))"
    using distinct_discovered_files [OF assms, of d]
    by (simp add: sort_newest_first_def distinct_map)
  then show ?thesis
    by (simp add: eligible_by_count_def slice_from_def drop_map [symmetric] distinct_drop
        del: drop_map)
qed

lemma delete_phase_best_effort:
  assumes "distinct E" and "fs w1 = fs w" and "removes (trace w1) = removes (trace w)"
  shows "best_effort w E (delete_phase E w1)"
proof -
  have "removable w1 = removable w"
    using assms(2) by (auto simp: removable_def fun_eq_iff)
  then show ?thesis
    using delete_phase_spec(1-3) [OF assms(1), of w1] assms(2,3)
    by (simp add: best_effort_def)
qed

lemma best_effort_nothing:
  "fs w1 = fs w \<Longrightarrow> removes (trace w1) = removes (trace w) \<Longrightarrow> best_effort w [] (Inr 0, w1)"
  by (simp add: best_effort_def)

lemma age_best_effort:
  assumes "map_of (fs w) d \<noteq> None" and "distinct (map fst (fs w))"
    and "confirm \<longrightarrow> stdin w = r # rest \<and> (r = ''y'' \<or> r = ''Y'')"
  shows "best_effort w (eligible_by_age w d n) (housekeep_by_age d n confirm w)"
proof (cases "eligible_by_age w d n = []")
  case True
  then show ?thesis
    using assms(1) by (simp add: housekeep_by_age_none best_effort_nothing removes_append)
next
  case False
  note dE = distinct_eligible_by_age [OF assms(2), of d n]
  show ?thesis
  proof (cases confirm)
    case True
    with assms(3) have s: "stdin w = r # rest" and y: "lower r = ''y''"
      by (auto simp: lower_eq_y)
    show ?thesis
      using True y housekeep_by_age_asked [OF assms(1) False s]
      by (simp add: delete_phase_best_effort [OF dE] removes_append)
  next
    case no: False
    then show ?thesis
      using housekeep_by_age_direct [OF assms(1) False]
      by (simp add: delete_phase_best_effort [OF dE] removes_append)
  qed
qed

lemma count_best_effort:
  assumes "map_of (fs w) d \<noteq> None" and "distinct (map fst (fs w))"
    and "confirm \<longrightarrow> stdin w = r # rest \<and> (r = ''y'' \<or> r = ''Y'')"
  shows "best_effort w (eligible_by_count w d k) (housekeep_by_count d k confirm w)"
proof (cases "int (length (discovered_files w d)) \<le> k")
  case True
  then have "eligible_by_count w d k = []"
    using eligible_by_count_nonempty by blast
  then show ?thesis
    using assms(1) True
    by (simp add: housekeep_by_count_few best_effort_nothing removes_append)
next
  case False
  note dE = distinct_eligible_by_count [OF assms(2), of d k]
  show ?thesis
  proof (cases confirm)
    case True
    with assms(3) have s: "stdin w = r # rest" and y: "lower r = ''y''"
      by (auto simp: lower_eq_y)
    show ?thesis
      using True y housekeep_by_count_asked [OF assms(1) False s]
      by (simp add: delete_phase_best_effort [OF dE] removes_append)
  next
    case no: False
    then show ?thesis
      using housekeep_by_count_direct [OF assms(1) False]
      by (simp add: delete_phase_best_effort [OF dE] removes_append)
  qed
qed

text \<open>
  C5. In an existing directory (each path listed once), whenever the deletion loop is
  reached (confirmation off, or the answer is \<open>y\<close> or \<open>Y\<close>), both operations hand every
  candidate to \<^verbatim>\<open>os.remove\<close>, in order, whether or not earlier removals failed; no
  failure is raised to the caller; the value returned is the number of removals that
  succeeded, and exactly those files are gone.
\<close>

theorem deletion_is_best_effort:
  assumes "map_of (fs w) d \<noteq> None" and "distinct (map fst (fs w))"
    and "confirm \<longrightarrow> stdin w = r # rest \<and> (r = ''y'' \<or> r = ''Y'')"
  shows "best_effort w (eligible_by_age w d n) (housekeep_by_age d n confirm w)
       \<and> best_effort w (eligible_by_count w d k) (housekeep_by_count d k confirm w)"
  using age_best_effort [OF assms] count_best_effort [OF assms] by blast

lemma three_old_files_facts:
  "map_of (fs (three_old_files lines)) [''data''] \<noteq> None"
  "distinct (map fst (fs (three_old_files lines)))"
  "stdin (three_old_files lines) = lines"
  "removes (trace (three_old_files lines)) = []"
  "eligible_by_age (three_old_files lines) [''data''] 7
     = [[''data'', ''a''], [''data'', ''b''], [''data'', ''c'']]"
  "eligible_by_count (three_old_files lines) [''data''] 1
     = [[''data'', ''b''], [''data'', ''a'']]"
  "removable (three_old_files lines) [''data'', ''a'']"
  "\<not> removable (three_old_files lines) [''data'', ''b'']"
  "removable (three_old_files lines) [''data'', ''c'']"
  by (simp_all add: three_old_files_def world_defs select_defs)

theorem deletion_is_best_effort_witness:
  "map_of (fs (three_old_files [''Y''])) [''data''] \<noteq> None
   \<and> distinct (map fst (fs (three_old_files [''Y''])))
   \<and> fst (housekeep_by_age [''data''] 7 True (three_old_files [''Y''])) = Inr 2
   \<and> removes (trace (snd (housekeep_by_age [''data''] 7 True (three_old_files [''Y'']))))
       = [[''data'', ''a''], [''data'', ''b''], [''data'', ''c'']]
   \<and> fs (snd (housekeep_by_age [''data''] 7 True (three_old_files [''Y''])))
       = [a_dir [''data''], a_locked_file [''data'', ''b''] 1]
   \<and> fst (housekeep_by_count [''data''] 1 True (three_old_files [''Y''])) = Inr 1
   \<and> removes (trace (snd (housekeep_by_count [''data''] 1 True (three_old_files [''Y'']))))
       = [[''data'', ''b''], [''data'', ''a'']]
   \<and> fs (snd (housekeep_by_count [''data''] 1 True (three_old_files [''Y''])))
       = [a_dir [''data''], a_locked_file [''data'', ''b''] 1, a_file [''data'', ''c''] 2]"
proof -
  have h: "map_of (fs (three_old_files [''Y''])) [''data''] \<noteq> None"
    and g: "distinct (map fst (fs (three_old_files [''Y''])))"
    by (rule three_old_files_facts)+
  have c: "True \<longrightarrow> stdin (three_old_files [''Y'']) = ''Y'' # [] \<and> (''Y'' = ''y'' \<or> ''Y'' = ''Y'')"
    by (simp add: three_old_files_facts)
  have f: "fs (three_old_files [''Y'']) =
      [a_dir [''data''], a_file [''data'', ''a''] 0, a_locked_file [''data'', ''b''] 1,
       a_file [''data'', ''c''] 2]"
    by (simp add: three_old_files_def world_of_def)
  show ?thesis
    using h g deletion_is_best_effort [OF h g c, of 7 1]
    by (simp add: best_effort_def three_old_files_facts f a_dir_def a_file_def
        a_locked_file_def)
qed

section \<open>Selection by age\<close>

lemma mem_eligible_by_age:
  assumes "distinct (map fst (fs w))" and "f \<in> set (listing w d)"
  shows "fst f \<in> set (eligible_by_age w d n)
           \<longleftrightarrow> is_file f \<and> st_mtime f < now w - timedelta_days n"
proof
  assume "fst f \<in> set (eligible_by_age w d n)"
  then obtain g where g: "g \<in> set (listing w d)" "is_file g"
      "st_mtime g < now w - timedelta_days n" "fst g = fst f"
    by (auto simp: eligible_by_age_def older_than_def)
  have "inj_on fst (set (listing w d))"
    using distinct_listing [OF assms(1), of d] by (simp add: distinct_map)
  with g(1,4) assms(2) have "g = f"
    by (auto dest: inj_onD)
  with g show "is_file f \<and> st_mtime f < now w - timedelta_days n"
    by simp
next
  assume "is_file f \<and> st_mtime f < now w - timedelta_days n"
  with assms(2) show "fst f \<in> set (eligible_by_age w d n)"
    by (force simp: eligible_by_age_def older_than_def)
qed

text \<open>
  C7. In an existing directory (each path listed once), an entry found by the enumeration
  is handed to \<^verbatim>\<open>os.remove\<close> by \<^verbatim>\<open>housekeep_by_age\<close> (confirmation off) if and only if
  it is a regular file whose modification time is strictly less than the cutoff, now minus
  \<^verbatim>\<open>days_old\<close> days (86400000000 microseconds each). A file modified exactly at the
  cutoff is not selected.
\<close>

theorem age_selects_strictly_older:
  assumes "map_of (fs w) d \<noteq> None" and "distinct (map fst (fs w))"
    and "f \<in> set (listing w d)"
  shows "fst f \<in> set (attempted w (snd (housekeep_by_age d n False w)))
           \<longleftrightarrow> is_file f \<and> st_mtime f < now w - n * 86400000000"
proof -
  have "best_effort w (eligible_by_age w d n) (housekeep_by_age d n False w)"
    using age_best_effort [OF assms(1,2), of False] by simp
  then have "attempted w (snd (housekeep_by_age d n False w)) = eligible_by_age w d n"
    by (simp add: best_effort_def attempted_def)
  then show ?thesis
    using mem_eligible_by_age [OF assms(2,3), of n] by (simp add: timedelta_days_def)
qed

theorem age_selects_strictly_older_witness:
  "map_of (fs at_the_cutoff) [''data''] \<noteq> None
   \<and> distinct (map fst (fs at_the_cutoff))
   \<and> a_file [''data'', ''edge''] 1000 \<in> set (listing at_the_cutoff [''data''])
   \<and> a_file [''data'', ''older''] 999 \<in> set (listing at_the_cutoff [''data''])
   \<and> now at_the_cutoff - 7 * 86400000000 = 1000
   \<and> [''data'', ''edge''] \<notin> set (attempted at_the_cutoff
         (snd (housekeep_by_age [''data''] 7 False at_the_cutoff)))
   \<and> [''data'', ''older''] \<in> set (attempted at_the_cutoff
         (snd (housekeep_by_age [''data''] 7 False at_the_cutoff)))"
proof -
  have h: "map_of (fs at_the_cutoff) [''data''] \<noteq> None"
    and g: "distinct (map fst (fs at_the_cutoff))"
    and e: "a_file [''data'', ''edge''] 1000 \<in> set (listing at_the_cutoff [''data''])"
    and o: "a_file [''data'', ''older''] 999 \<in> set (listing at_the_cutoff [''data''])"
    by (simp_all add: at_the_cutoff_def world_defs select_defs)
  have n: "now at_the_cutoff = 604800001000"
    by (simp add: at_the_cutoff_def world_of_def)
  show ?thesis
    using h g e o
      age_selects_strictly_older [OF h g e, of 7]
      age_selects_strictly_older [OF h g o, of 7]
    by (simp add: n a_file_def is_file_def st_mtime_def)
qed

section \<open>A path that is not a directory\<close>

lemma listing_of_regular_file:
  "map_of (fs w) p = Some nd \<Longrightarrow> node_kind nd = RegularFile \<Longrightarrow> listing w p = []"
  by (simp add: listing_def rglob_def)

text \<open>
  C10. A path that exists as a regular file passes the existence check of both
  operations: neither raises \<^verbatim>\<open>FileNotFoundError\<close>, both go on to enumerate (and find
  nothing), and \<^verbatim>\<open>housekeep_by_age\<close> returns 0.
\<close>

theorem regular_file_passes_the_check:
  assumes "map_of (fs w) p = Some nd" and "node_kind nd = RegularFile"
  shows "fst (housekeep_by_age p n c w) = Inr 0
       \<and> Rglob p \<in> set (trace (snd (housekeep_by_age p n c w)))
       \<and> fst (housekeep_by_count p k c w) \<noteq> Inl (FileNotFoundError msg)
       \<and> Rglob p \<in> set (trace (snd (housekeep_by_count p k c w)))"
proof -
  have ex: "map_of (fs w) p \<noteq> None"
    using assms(1) by simp
  have l: "listing w p = []"
    by (rule listing_of_regular_file [OF assms])
  have ea: "eligible_by_age w p n = []"
    by (simp add: eligible_by_age_def older_than_def l)
  have df: "discovered_files w p = []"
    by (simp add: discovered_files_def files_with_mtime_def l)
  have ec: "eligible_by_count w p k = []"
    by (simp add: eligible_by_count_def df slice_from_def sort_newest_first_def)
  have age: "housekeep_by_age p n c w =
      (Inr 0, print (''No files older than '' @ str_int n @ '' days found.'') (scanned p w))"
    by (rule housekeep_by_age_none [OF ex ea])
  have count: "fst (housekeep_by_count p k c w) \<noteq> Inl (FileNotFoundError msg)
       \<and> Rglob p \<in> set (trace (snd (housekeep_by_count p k c w)))"
  proof (cases "int (length (discovered_files w p)) \<le> k")
    case True
    then show ?thesis
      by (simp add: housekeep_by_count_few [OF ex])
  next
    case few: False
    show ?thesis
    proof (cases c)
      case False
      then show ?thesis
        using housekeep_by_count_direct [OF ex few]
        by (simp add: ec delete_phase_def)
    next
      case True
      show ?thesis
      proof (cases "stdin w")
        case Nil
        then show ?thesis
          using True ex few
          by (simp add: housekeep_by_count_def os_path_exists_def rglob_eq listing_emit l
              discovered_files_def Let_def input_def announce_by_count_def)
      next
        case (Cons r rest)
        then show ?thesis
          using True housekeep_by_count_asked [OF ex few Cons]
          by (simp add: ec delete_phase_def announce_by_count_def)
      qed
    qed
  qed
  show ?thesis
    using count by (simp add: age)
qed

theorem regular_file_passes_the_check_witness:
  "map_of (fs (one_old_file [])) [''data'', ''old.log''] = Some (Node RegularFile 0 None)
   \<and> node_kind (Node RegularFile 0 None) = RegularFile
   \<and> fst (housekeep_by_age [''data'', ''old.log''] 7 True (one_old_file [])) = Inr 0
   \<and> Rglob [''data'', ''old.log'']
       \<in> set (trace (snd (housekeep_by_age [''data'', ''old.log''] 7 True (one_old_file []))))
   \<and> fst (housekeep_by_count [''data'', ''old.log''] 3 True (one_old_file []))
       \<noteq> Inl (FileNotFoundError ''Directory /data/old.log does not exist'')
   \<and> Rglob [''data'', ''old.log'']
       \<in> set (trace (snd (housekeep_by_count [''data'', ''old.log''] 3 True (one_old_file []))))"
proof -
  have h: "map_of (fs (one_old_file [])) [''data'', ''old.log''] = Some (Node RegularFile 0 None)"
    by (simp add: world_defs)
  have k: "node_kind (Node RegularFile 0 None) = RegularFile"
    by simp
  show ?thesis
    using h regular_file_passes_the_check [OF h k, of 7 True 3]
    by simp
qed

section \<open>Running the age policy twice\<close>

lemma map_of_filter_notin:
  "map_of (filter (\<lambda>e. fst e \<notin> S) xs) q = (if q \<in> S then None else map_of xs q)"
  by (induction xs) auto

lemma listing_subset_fs: "set (listing w d) \<subseteq> set (fs w)"
  by (auto simp: listing_def rglob_def split: option.splits if_splits)

lemma listing_below: "e \<in> set (listing w d) \<Longrightarrow> strict_prefix d (fst e)"
  by (auto simp: listing_def rglob_def split: option.splits if_splits)

lemma eligible_by_age_below: "p \<in> set (eligible_by_age w d n) \<Longrightarrow> p \<noteq> d"
  by (auto simp: eligible_by_age_def older_than_def dest: listing_below)

lemma listing_after_removal:
  assumes "fs w2 = filter (\<lambda>e. fst e \<notin> S) (fs w)" and "d \<notin> S"
  shows "listing w2 d = filter (\<lambda>e. fst e \<notin> S) (listing w d)"
proof (cases "map_of (fs w) d")
  case None
  then show ?thesis
    using assms by (simp add: listing_def rglob_def map_of_filter_notin)
next
  case (Some nd)
  show ?thesis
  proof (cases "node_kind nd = Directory")
    case True
    have "filter (\<lambda>e. strict_prefix d (fst e)) (filter (\<lambda>e. fst e \<notin> S) (fs w))
        = filter (\<lambda>e. fst e \<notin> S) (filter (\<lambda>e. strict_prefix d (fst e)) (fs w))"
      unfolding filter_filter by (rule filter_cong [OF refl]) blast
    then show ?thesis
      using assms Some True by (simp add: listing_def rglob_def map_of_filter_notin)
  next
    case False
    then show ?thesis
      using assms Some by (simp add: listing_def rglob_def map_of_filter_notin)
  qed
qed

lemma second_run_candidates:
  assumes "fs w2 = filter (\<lambda>e. fst e \<notin> set (eligible_by_age w d n)) (fs w)"
  shows "eligible_by_age w2 d n =
           older_than (now w2 - timedelta_days n)
             (filter (\<lambda>e. fst e \<notin> set (eligible_by_age w d n)) (listing w d))"
proof -
  have "d \<notin> set (eligible_by_age w d n)"
    using eligible_by_age_below by blast
  from listing_after_removal [OF assms this] show ?thesis
    by (simp add: eligible_by_age_def [of w2])
qed

lemma fs_after_first_run:
  assumes "map_of (fs w) d \<noteq> None" and "distinct (map fst (fs w))"
    and "confirm \<longrightarrow> stdin w = r # rest \<and> (r = ''y'' \<or> r = ''Y'')"
    and "\<forall>p\<in>set (eligible_by_age w d n). removable w p"
  shows "fs (snd (housekeep_by_age d n confirm w))
           = filter (\<lambda>e. fst e \<notin> set (eligible_by_age w d n)) (fs w)"
proof -
  have "filter (removable w) (eligible_by_age w d n) = eligible_by_age w d n"
    using assms(4) by (simp add: filter_id_conv)
  then show ?thesis
    using age_best_effort [OF assms(1-3), of n] by (simp add: best_effort_def)
qed

text \<open>
  C8, as the code has it. Run \<^verbatim>\<open>housekeep_by_age\<close> once so that the deletion loop is
  reached and every removal succeeds, then look at the candidates of a second run with
  the same threshold on the filesystem the first run left, when the clock reads \<open>t\<close>.
  They are all among the files the first run left, and none of them is a file the first
  run deleted. If the clock has not advanced (\<open>t\<close> is not later than the first reading)
  there are no candidates at all. Nothing bounds their number when the clock has
  advanced.
\<close>

theorem second_age_run_candidates:
  assumes "map_of (fs w) d \<noteq> None" and "distinct (map fst (fs w))"
    and "confirm \<longrightarrow> stdin w = r # rest \<and> (r = ''y'' \<or> r = ''Y'')"
    and "\<forall>p\<in>set (eligible_by_age w d n). removable w p"
  shows "set (eligible_by_age ((snd (housekeep_by_age d n confirm w))\<lparr>now := t\<rparr>) d n)
           \<subseteq> fst ` set (fs (snd (housekeep_by_age d n confirm w)))
       \<and> set (eligible_by_age ((snd (housekeep_by_age d n confirm w))\<lparr>now := t\<rparr>) d n)
           \<inter> set (eligible_by_age w d n) = {}
       \<and> (t \<le> now w \<longrightarrow>
            eligible_by_age ((snd (housekeep_by_age d n confirm w))\<lparr>now := t\<rparr>) d n = [])"
proof -
  let ?w1 = "snd (housekeep_by_age d n confirm w)"
  let ?w2 = "?w1\<lparr>now := t\<rparr>"
  let ?E1 = "eligible_by_age w d n"
  have fs1: "fs ?w1 = filter (\<lambda>e. fst e \<notin> set ?E1) (fs w)"
    by (rule fs_after_first_run [OF assms])
  then have fs2: "fs ?w2 = filter (\<lambda>e. fst e \<notin> set ?E1) (fs w)"
    by simp
  have E2: "eligible_by_age ?w2 d n =
      older_than (t - timedelta_days n) (filter (\<lambda>e. fst e \<notin> set ?E1) (listing w d))"
    using second_run_candidates [OF fs2] by simp
  have a: "set (eligible_by_age ?w2 d n) \<subseteq> fst ` set (fs ?w1)"
    unfolding E2 fs1 using listing_subset_fs [of w d]
    by (auto simp: older_than_def)
  have b: "set (eligible_by_age ?w2 d n) \<inter> set ?E1 = {}"
    unfolding E2 by (auto simp: older_than_def)
  have c: "eligible_by_age ?w2 d n = []" if "t \<le> now w"
  proof -
    have "\<not> (is_file e \<and> st_mtime e < t - timedelta_days n)"
      if e: "e \<in> set (listing w d)" "fst e \<notin> set ?E1" for e
    proof
      assume "is_file e \<and> st_mtime e < t - timedelta_days n"
      with \<open>t \<le> now w\<close> have "is_file e \<and> st_mtime e < now w - timedelta_days n"
        by simp
      with e(1) have "fst e \<in> set ?E1"
        by (force simp: eligible_by_age_def older_than_def)
      with e(2) show False by simp
    qed
    then show ?thesis
      unfolding E2 by (auto simp: older_than_def filter_empty_conv)
  qed
  show ?thesis
    using a b c by blast
qed

lemma two_at_the_cutoff_facts:
  "map_of (fs two_at_the_cutoff) [''data''] \<noteq> None"
  "distinct (map fst (fs two_at_the_cutoff))"
  "now two_at_the_cutoff = 604800001000"
  "eligible_by_age two_at_the_cutoff [''data''] 7 = [[''data'', ''gone'']]"
  "removable two_at_the_cutoff [''data'', ''gone'']"
  "listing two_at_the_cutoff [''data''] =
     [a_file [''data'', ''gone''] 0, a_file [''data'', ''x''] 1000, a_file [''data'', ''y''] 1000]"
  "fs two_at_the_cutoff =
     [a_dir [''data''], a_file [''data'', ''gone''] 0, a_file [''data'', ''x''] 1000,
      a_file [''data'', ''y''] 1000]"
  by (simp_all add: two_at_the_cutoff_def world_defs select_defs)

lemma two_at_the_cutoff_first_run:
  "fst (housekeep_by_age [''data''] 7 False two_at_the_cutoff) = Inr 1"
  "fs (snd (housekeep_by_age [''data''] 7 False two_at_the_cutoff)) =
     [a_dir [''data''], a_file [''data'', ''x''] 1000, a_file [''data'', ''y''] 1000]"
  using age_best_effort [of two_at_the_cutoff "[''data'']" False "''''" "[]" 7]
  by (simp_all add: best_effort_def two_at_the_cutoff_facts a_dir_def a_file_def)

lemma two_at_the_cutoff_second_run:
  "eligible_by_age ((snd (housekeep_by_age [''data''] 7 False two_at_the_cutoff))\<lparr>now := t\<rparr>)
       [''data''] 7
     = older_than (t - 604800000000)
         [a_file [''data'', ''x''] 1000, a_file [''data'', ''y''] 1000]"
proof -
  have "fs ((snd (housekeep_by_age [''data''] 7 False two_at_the_cutoff))\<lparr>now := t\<rparr>)
      = filter (\<lambda>e. fst e \<notin> set (eligible_by_age two_at_the_cutoff [''data''] 7))
          (fs two_at_the_cutoff)"
    by (simp add: two_at_the_cutoff_first_run two_at_the_cutoff_facts a_dir_def a_file_def)
  from second_run_candidates [OF this] show ?thesis
    by (simp add: two_at_the_cutoff_facts timedelta_days_def a_file_def)
qed

theorem second_age_run_candidates_witness:
  "map_of (fs two_at_the_cutoff) [''data''] \<noteq> None
   \<and> distinct (map fst (fs two_at_the_cutoff))
   \<and> list_all (removable two_at_the_cutoff) (eligible_by_age two_at_the_cutoff [''data''] 7)
   \<and> eligible_by_age two_at_the_cutoff [''data''] 7 = [[''data'', ''gone'']]
   \<and> [''data'', ''gone''] \<notin> set (eligible_by_age
         ((snd (housekeep_by_age [''data''] 7 False two_at_the_cutoff))\<lparr>now := 604800001001\<rparr>)
         [''data''] 7)
   \<and> set (eligible_by_age
         ((snd (housekeep_by_age [''data''] 7 False two_at_the_cutoff))\<lparr>now := 604800001001\<rparr>)
         [''data''] 7)
       \<subseteq> fst ` set (fs (snd (housekeep_by_age [''data''] 7 False two_at_the_cutoff)))
   \<and> eligible_by_age
         ((snd (housekeep_by_age [''data''] 7 False two_at_the_cutoff))\<lparr>now := 604800001000\<rparr>)
         [''data''] 7 = []"
proof -
  have h: "map_of (fs two_at_the_cutoff) [''data''] \<noteq> None"
    and g: "distinct (map fst (fs two_at_the_cutoff))"
    by (rule two_at_the_cutoff_facts)+
  have c: "False \<longrightarrow> stdin two_at_the_cutoff = '''' # [] \<and> ('''' = ''y'' \<or> '''' = ''Y'')"
    by simp
  have r: "\<forall>p\<in>set (eligible_by_age two_at_the_cutoff [''data''] 7). removable two_at_the_cutoff p"
    by (simp add: two_at_the_cutoff_facts)
  show ?thesis
    using h g r
      second_age_run_candidates [OF h g c r, of 604800001001]
      second_age_run_candidates [OF h g c r, of 604800001000]
    by (simp add: two_at_the_cutoff_facts)
qed

text \<open>
  C8, as the spec states it, fails on the count. The first run finds one candidate and
  deletes it; nothing is created or modified; the second run starts a microsecond later,
  when the two files modified exactly at the first cutoff have become older than the
  cutoff: two candidates after one.
\<close>

theorem second_age_run_count_can_grow:
  "fst (housekeep_by_age [''data''] 7 False two_at_the_cutoff)
     = Inr (int (length (eligible_by_age two_at_the_cutoff [''data''] 7)))
   \<and> \<not> length (eligible_by_age
            ((snd (housekeep_by_age [''data''] 7 False two_at_the_cutoff))
               \<lparr>now := now two_at_the_cutoff + 1\<rparr>) [''data''] 7)
        \<le> length (eligible_by_age two_at_the_cutoff [''data''] 7)"
  by (simp add: two_at_the_cutoff_first_run two_at_the_cutoff_second_run
      two_at_the_cutoff_facts older_than_def a_file_def is_file_def st_mtime_def)

section \<open>Selection by count\<close>

lemma newest_first_split:
  assumes "distinct (map snd files)"
  shows "\<forall>x\<in>set (drop m (sort_newest_first files)).
           \<forall>y\<in>set (take m (sort_newest_first files)). snd x < snd y"
proof (intro ballI)
  fix x y
  let ?S = "sort_newest_first files"
  assume x: "x \<in> set (drop m ?S)" and y: "y \<in> set (take m ?S)"
  have "sorted (map (\<lambda>x. - snd x) (take m ?S @ drop m ?S))"
    by (simp add: sort_newest_first_def)
  then have "- snd y \<le> - snd x"
    unfolding map_append sorted_append using x y by auto
  moreover have "distinct (map snd (take m ?S @ drop m ?S))"
    using assms by (simp add: sort_newest_first_def distinct_map)
  then have "snd x \<noteq> snd y"
    unfolding map_append distinct_append using x y by auto
  ultimately show "snd x < snd y"
    by simp
qed

lemma eligible_by_count_drop:
  "0 \<le> k \<Longrightarrow> eligible_by_count w d k
     = map fst (drop (nat k) (sort_newest_first (discovered_files w d)))"
  by (simp add: eligible_by_count_def slice_from_def)

lemma eligible_by_count_oldest:
  assumes "distinct (map fst (discovered_files w d))"
    and "distinct (map snd (discovered_files w d))" and "0 \<le> k"
  shows "holds_the_oldest (discovered_files w d) (eligible_by_count w d k)"
  unfolding holds_the_oldest_def
proof (intro ballI impI)
  fix x y
  let ?files = "discovered_files w d"
  let ?S = "sort_newest_first ?files"
  assume x: "x \<in> set ?files" and y: "y \<in> set ?files"
    and xy: "fst x \<in> set (eligible_by_count w d k) \<and> fst y \<notin> set (eligible_by_count w d k)"
  have E: "set (eligible_by_count w d k) = fst ` set (drop (nat k) ?S)"
    by (simp add: eligible_by_count_drop [OF assms(3)])
  have inj: "inj_on fst (set ?files)"
    using assms(1) by (simp add: distinct_map)
  have S: "set ?S = set ?files"
    by (simp add: sort_newest_first_def)
  from xy E obtain x' where x': "x' \<in> set (drop (nat k) ?S)" "fst x' = fst x"
    by auto
  from x'(1) have "x' \<in> set ?files"
    using S by (auto dest: in_set_dropD)
  with inj x x'(2) have "x' = x"
    by (auto dest: inj_onD)
  with x'(1) have xd: "x \<in> set (drop (nat k) ?S)"
    by simp
  have "set ?files = set (take (nat k) ?S) \<union> set (drop (nat k) ?S)"
    using S set_append [of "take (nat k) ?S" "drop (nat k) ?S"] by simp
  with y have "y \<in> set (take (nat k) ?S) \<union> set (drop (nat k) ?S)"
    by simp
  moreover have "y \<notin> set (drop (nat k) ?S)"
    using xy E by auto
  ultimately have yt: "y \<in> set (take (nat k) ?S)"
    by blast
  from newest_first_split [OF assms(2), of "nat k"] xd yt show "snd x < snd y"
    by blast
qed

lemma kept_by_count:
  assumes "distinct (map fst (discovered_files w d))" and "0 \<le> k"
    and "k < int (length (discovered_files w d))"
  shows "length (filter (\<lambda>x. fst x \<notin> set (eligible_by_count w d k)) (discovered_files w d))
           = nat k"
proof -
  let ?files = "discovered_files w d"
  let ?S = "sort_newest_first ?files"
  have dS: "distinct ?S" and dF: "distinct ?files"
    using assms(1) by (simp_all add: sort_newest_first_def distinct_map)
  have inj: "inj_on fst (set ?files)"
    using assms(1) by (simp add: distinct_map)
  have S: "set ?S = set ?files"
    by (simp add: sort_newest_first_def)
  have split: "set ?files = set (take (nat k) ?S) \<union> set (drop (nat k) ?S)"
    using S set_append [of "take (nat k) ?S" "drop (nat k) ?S"] by simp
  have disj: "set (take (nat k) ?S) \<inter> set (drop (nat k) ?S) = {}"
    using dS distinct_append [of "take (nat k) ?S" "drop (nat k) ?S"] by simp
  have "set (filter (\<lambda>x. fst x \<notin> set (eligible_by_count w d k)) ?files)
      = set (take (nat k) ?S)"
  proof (intro equalityI subsetI)
    fix x assume "x \<in> set (filter (\<lambda>x. fst x \<notin> set (eligible_by_count w d k)) ?files)"
    then have "x \<in> set ?files" and "fst x \<notin> fst ` set (drop (nat k) ?S)"
      by (simp_all add: eligible_by_count_drop [OF assms(2)])
    then show "x \<in> set (take (nat k) ?S)"
      using split by auto
  next
    fix x assume t: "x \<in> set (take (nat k) ?S)"
    then have xf: "x \<in> set ?files"
      using split by simp
    have "fst x \<notin> fst ` set (drop (nat k) ?S)"
    proof
      assume "fst x \<in> fst ` set (drop (nat k) ?S)"
      then obtain x' where x': "x' \<in> set (drop (nat k) ?S)" "fst x' = fst x"
        by auto
      then have "x' \<in> set ?files"
        using split by simp
      with inj xf x'(2) have "x' = x"
        by (auto dest: inj_onD)
      with x'(1) t disj show False
        by auto
    qed
    with xf show "x \<in> set (filter (\<lambda>x. fst x \<notin> set (eligible_by_count w d k)) ?files)"
      by (simp add: eligible_by_count_drop [OF assms(2)])
  qed
  then have "card (set (filter (\<lambda>x. fst x \<notin> set (eligible_by_count w d k)) ?files))
      = card (set (take (nat k) ?S))"
    by simp
  moreover have "distinct (filter (\<lambda>x. fst x \<notin> set (eligible_by_count w d k)) ?files)"
    using dF by simp
  moreover have "distinct (take (nat k) ?S)"
    using dS by simp
  moreover have "length (take (nat k) ?S) = nat k"
    using assms(3) by (simp add: sort_newest_first_def)
  ultimately show ?thesis
    by (metis distinct_card)
qed

text \<open>
  C2. In an existing directory (each path listed once) holding \<open>N\<close> files with pairwise
  distinct modification times, all of them removable, \<^verbatim>\<open>housekeep_by_count\<close> with
  confirmation off and \<open>0 \<le> keep_count < N\<close> returns \<open>N - keep_count\<close>. The files it
  hands to \<^verbatim>\<open>os.remove\<close> are \<open>N - keep_count\<close> different files of the directory, each
  modified strictly before every file it keeps; it keeps \<open>keep_count\<close> files; and the
  filesystem afterwards is the old one without the deleted files. (The spec requires
  \<open>keep_count\<close> to be non-negative.)
\<close>

theorem count_deletes_the_oldest:
  assumes "map_of (fs w) d \<noteq> None" and "distinct (map fst (fs w))"
    and "distinct (map snd (discovered_files w d))"
    and "\<forall>p\<in>fst ` set (discovered_files w d). removable w p"
    and "0 \<le> k" and "k < int (length (discovered_files w d))"
  shows "fst (housekeep_by_count d k False w) = Inr (int (length (discovered_files w d)) - k)
       \<and> length (attempted w (snd (housekeep_by_count d k False w)))
           = length (discovered_files w d) - nat k
       \<and> distinct (attempted w (snd (housekeep_by_count d k False w)))
       \<and> set (attempted w (snd (housekeep_by_count d k False w)))
           \<subseteq> fst ` set (discovered_files w d)
       \<and> holds_the_oldest (discovered_files w d)
           (attempted w (snd (housekeep_by_count d k False w)))
       \<and> length (filter (\<lambda>x. fst x \<notin> set (attempted w (snd (housekeep_by_count d k False w))))
                   (discovered_files w d)) = nat k
       \<and> fs (snd (housekeep_by_count d k False w))
           = filter (\<lambda>e. fst e \<notin> set (attempted w (snd (housekeep_by_count d k False w))))
               (fs w)"
proof -
  let ?files = "discovered_files w d"
  let ?E = "eligible_by_count w d k"
  let ?res = "housekeep_by_count d k False w"
  have dp: "distinct (map fst ?files)"
    by (rule distinct_discovered_files [OF assms(2)])
  have E: "?E = map fst (drop (nat k) (sort_newest_first ?files))"
    by (rule eligible_by_count_drop [OF assms(5)])
  have "set (drop (nat k) (sort_newest_first ?files)) \<subseteq> set ?files"
    using set_drop_subset [of "nat k" "sort_newest_first ?files"]
    by (simp add: sort_newest_first_def)
  then have sub: "set ?E \<subseteq> fst ` set ?files"
    unfolding E by auto
  then have all: "filter (removable w) ?E = ?E"
    using assms(4) by (auto simp: filter_id_conv)
  have len: "length ?E = length ?files - nat k"
    unfolding E by (simp add: sort_newest_first_def)
  have "best_effort w ?E ?res"
    using count_best_effort [OF assms(1,2), of False] by simp
  then have r: "fst ?res = Inr (int (length ?E))"
    and a: "attempted w (snd ?res) = ?E"
    and f: "fs (snd ?res) = filter (\<lambda>e. fst e \<notin> set ?E) (fs w)"
    by (simp_all add: best_effort_def attempted_def all)
  have n: "int (length ?files - nat k) = int (length ?files) - k"
    using assms(5,6) by simp
  show ?thesis
    unfolding a
    using r f len n sub distinct_eligible_by_count [OF assms(2), of d k]
      eligible_by_count_oldest [OF dp assms(3,5)] kept_by_count [OF dp assms(5,6)]
    by simp
qed

lemma seven_files_facts:
  "map_of (fs seven_files) [''data''] \<noteq> None"
  "distinct (map fst (fs seven_files))"
  "removes (trace seven_files) = []"
  "discovered_files seven_files [''data''] =
     [([''data'', ''file_0''], 36000000000), ([''data'', ''file_1''], 32400000000),
      ([''data'', ''file_2''], 28800000000), ([''data'', ''file_3''], 25200000000),
      ([''data'', ''file_4''], 21600000000), ([''data'', ''file_5''], 18000000000),
      ([''data'', ''file_6''], 14400000000)]"
  "fs seven_files =
     [a_dir [''data''],
      a_file [''data'', ''file_0''] 36000000000, a_file [''data'', ''file_1''] 32400000000,
      a_file [''data'', ''file_2''] 28800000000, a_file [''data'', ''file_3''] 25200000000,
      a_file [''data'', ''file_4''] 21600000000, a_file [''data'', ''file_5''] 18000000000,
      a_file [''data'', ''file_6''] 14400000000]"
  by (simp_all add: seven_files_def world_defs select_defs)

lemma seven_files_removable:
  "\<forall>p\<in>fst ` set (discovered_files seven_files [''data'']). removable seven_files p"
  unfolding seven_files_facts(4) by (simp add: seven_files_def world_defs removable_def)

lemma seven_files_candidates:
  "eligible_by_count seven_files [''data''] 3 =
     [[''data'', ''file_3''], [''data'', ''file_4''], [''data'', ''file_5''],
      [''data'', ''file_6'']]"
  unfolding eligible_by_count_def seven_files_facts(4)
  by (simp add: sort_newest_first_def slice_from_def)

lemma seven_files_run:
  "attempted seven_files (snd (housekeep_by_count [''data''] 3 False seven_files)) =
     [[''data'', ''file_3''], [''data'', ''file_4''], [''data'', ''file_5''],
      [''data'', ''file_6'']]"
  using count_best_effort [of seven_files "[''data'']" False "''''" "[]" 3]
  by (simp add: best_effort_def attempted_def seven_files_facts(1-3) seven_files_candidates)

theorem count_deletes_the_oldest_witness:
  "map_of (fs seven_files) [''data''] \<noteq> None
   \<and> distinct (map fst (fs seven_files))
   \<and> distinct (map snd (discovered_files seven_files [''data'']))
   \<and> list_all (removable seven_files) (map fst (discovered_files seven_files [''data'']))
   \<and> (0::int) \<le> 3 \<and> 3 < int (length (discovered_files seven_files [''data'']))
   \<and> fst (housekeep_by_count [''data''] 3 False seven_files) = Inr 4
   \<and> attempted seven_files (snd (housekeep_by_count [''data''] 3 False seven_files)) =
        [[''data'', ''file_3''], [''data'', ''file_4''], [''data'', ''file_5''],
         [''data'', ''file_6'']]
   \<and> holds_the_oldest (discovered_files seven_files [''data''])
        (attempted seven_files (snd (housekeep_by_count [''data''] 3 False seven_files)))
   \<and> fs (snd (housekeep_by_count [''data''] 3 False seven_files)) =
        [a_dir [''data''],
         a_file [''data'', ''file_0''] 36000000000, a_file [''data'', ''file_1''] 32400000000,
         a_file [''data'', ''file_2''] 28800000000]"
proof -
  have h: "map_of (fs seven_files) [''data''] \<noteq> None"
    and g: "distinct (map fst (fs seven_files))"
    by (rule seven_files_facts)+
  have m: "distinct (map snd (discovered_files seven_files [''data'']))"
    unfolding seven_files_facts(4) by simp
  have k0: "(0::int) \<le> 3"
    by simp
  have kN: "3 < int (length (discovered_files seven_files [''data'']))"
    unfolding seven_files_facts(4) by simp
  have n: "int (length (discovered_files seven_files [''data''])) - 3 = 4"
    unfolding seven_files_facts(4) by simp
  have f: "filter (\<lambda>e. fst e \<notin> set [[''data'', ''file_3''], [''data'', ''file_4''],
                [''data'', ''file_5''], [''data'', ''file_6'']]) (fs seven_files) =
        [a_dir [''data''],
         a_file [''data'', ''file_0''] 36000000000, a_file [''data'', ''file_1''] 32400000000,
         a_file [''data'', ''file_2''] 28800000000]"
    unfolding seven_files_facts(5) by (simp add: a_dir_def a_file_def)
  have r: "list_all (removable seven_files) (map fst (discovered_files seven_files [''data'']))"
    using seven_files_removable by (simp add: list_all_iff)
  show ?thesis
    using h g m r k0 kN
      count_deletes_the_oldest [OF h g m seven_files_removable k0 kN]
    unfolding n seven_files_run f
    by blast
qed

end
